theory Spec2Isabelle
  imports Complex_Main "HOL-Library.Word"
begin

section \<open>Go runtime values used by the package\<close>

subsection \<open>Integers\<close>

text \<open>
  Go's \<^verbatim>\<open>int\<close> (taken as 64 bits wide) and \<^verbatim>\<open>int64\<close> are modelled as
  \<^typ>\<open>int\<close>; every addition, subtraction and multiplication the package itself writes
  goes through \<open>wrap64\<close>, the two's-complement wrap-around. The operator \<^verbatim>\<open>%\<close>
  truncates towards zero, so the remainder carries the sign of the dividend; a zero
  divisor is a run-time panic.
\<close>

datatype panic = IntegerDivideByZero | IndexOutOfRange | MakeSliceLenOutOfRange | PanicMsg string

definition wrap64 :: "int \<Rightarrow> int" where
  "wrap64 x = (x + 2 ^ 63) mod 2 ^ 64 - 2 ^ 63"

definition go_quo :: "int \<Rightarrow> int \<Rightarrow> int" where
  "go_quo a b = sgn a * sgn b * (\<bar>a\<bar> div \<bar>b\<bar>)"

definition go_rem :: "int \<Rightarrow> int \<Rightarrow> int" where
  "go_rem a b = sgn a * (\<bar>a\<bar> mod \<bar>b\<bar>)"

text \<open>Slice indexing \<^verbatim>\<open>s[i]\<close> panics outside \<open>0 \<le> i < len(s)\<close>.\<close>

definition index_get :: "'a list \<Rightarrow> int \<Rightarrow> panic + 'a" where
  "index_get xs i = (if 0 \<le> i \<and> i < int (length xs) then Inr (xs ! nat i) else Inl IndexOutOfRange)"

definition index_set :: "'a list \<Rightarrow> int \<Rightarrow> 'a \<Rightarrow> panic + 'a list" where
  "index_set xs i v = (if 0 \<le> i \<and> i < int (length xs) then Inr (xs[nat i := v]) else Inl IndexOutOfRange)"

subsection \<open>Floating point\<close>

text \<open>
  A binary floating-point value is a NaN, a signed infinity, or a sign and a magnitude
  (a non-negative rational; magnitude 0 gives the two signed zeros). The sign is
  \<open>True\<close> for negative. Arithmetic computes the exact rational result and rounds it to
  the nearest value of the format, ties to even, with gradual underflow and overflow to
  infinity. Each operation of the source is rounded on its own (no fused
  multiply-add).
\<close>

datatype float = FNaN | FInf bool | FNum bool rat

datatype format = Binary32 | Binary64

fun prec :: "format \<Rightarrow> int" where
  "prec Binary32 = 24"
| "prec Binary64 = 53"

fun emin :: "format \<Rightarrow> int" where
  "emin Binary32 = - 126"
| "emin Binary64 = - 1022"

fun emax :: "format \<Rightarrow> int" where
  "emax Binary32 = 127"
| "emax Binary64 = 1023"

definition pow2 :: "int \<Rightarrow> rat" where
  "pow2 e = (if 0 \<le> e then of_int (2 ^ nat e) else 1 / of_int (2 ^ nat (- e)))"

text \<open>The number of binary digits of a positive integer.\<close>

fun nbits :: "int \<Rightarrow> int" where
  "nbits k = (if k \<le> 0 then 0 else 1 + nbits (k div 2))"

text \<open>\<open>ilog2 x\<close> is the exponent \<open>e\<close> with \<open>2 ^ e \<le> x < 2 ^ (e + 1)\<close>, for \<open>x > 0\<close>.\<close>

definition ilog2 :: "rat \<Rightarrow> int" where
  "ilog2 x =
     (let (n, d) = quotient_of x;
          e = nbits n - nbits d
      in if pow2 e \<le> x then e else e - 1)"

definition round_half_even :: "rat \<Rightarrow> int" where
  "round_half_even x =
     (let f = \<lfloor>x\<rfloor>; r = x - of_int f
      in if r < 1 / 2 then f
         else if 1 / 2 < r then f + 1
         else if even f then f else f + 1)"

text \<open>
  \<open>fround f s m\<close> rounds the magnitude \<open>m\<close> with sign \<open>s\<close> to format \<open>f\<close>: \<open>e\<close> is the
  exponent of \<open>m\<close>, at least that of the subnormal numbers, \<open>q\<close> the spacing of the
  format's values there, and \<open>n\<close> the rounded significand in units of \<open>q\<close>. The
  result \<open>n * q\<close> overflows when it reaches \<open>2 ^ (emax + 1)\<close>.
\<close>

definition fround :: "format \<Rightarrow> bool \<Rightarrow> rat \<Rightarrow> float" where
  "fround f s m =
     (if m = 0 then FNum s 0
      else
        let e = max (ilog2 m) (emin f);
            q = pow2 (e - prec f + 1);
            n = round_half_even (m / q)
        in if emax f < e \<or> (e = emax f \<and> 2 ^ nat (prec f) \<le> n) then FInf s
           else FNum s (of_int n * q))"

definition fval :: "bool \<Rightarrow> rat \<Rightarrow> rat" where
  "fval s m = (if s then - m else m)"

fun fadd :: "format \<Rightarrow> float \<Rightarrow> float \<Rightarrow> float" where
  "fadd f FNaN b = FNaN"
| "fadd f a FNaN = FNaN"
| "fadd f (FInf s) (FInf s') = (if s = s' then FInf s else FNaN)"
| "fadd f (FInf s) (FNum s' m') = FInf s"
| "fadd f (FNum s m) (FInf s') = FInf s'"
| "fadd f (FNum s m) (FNum s' m') =
     (let x = fval s m + fval s' m'
      in if x = 0 then FNum (s \<and> s') 0 else fround f (x < 0) \<bar>x\<bar>)"

fun fmul :: "format \<Rightarrow> float \<Rightarrow> float \<Rightarrow> float" where
  "fmul f FNaN b = FNaN"
| "fmul f a FNaN = FNaN"
| "fmul f (FInf s) (FInf s') = FInf (s \<noteq> s')"
| "fmul f (FInf s) (FNum s' m') = (if m' = 0 then FNaN else FInf (s \<noteq> s'))"
| "fmul f (FNum s m) (FInf s') = (if m = 0 then FNaN else FInf (s \<noteq> s'))"
| "fmul f (FNum s m) (FNum s' m') = fround f (s \<noteq> s') (m * m')"

fun fdiv :: "format \<Rightarrow> float \<Rightarrow> float \<Rightarrow> float" where
  "fdiv f FNaN b = FNaN"
| "fdiv f a FNaN = FNaN"
| "fdiv f (FInf s) (FInf s') = FNaN"
| "fdiv f (FInf s) (FNum s' m') = FInf (s \<noteq> s')"
| "fdiv f (FNum s m) (FInf s') = FNum (s \<noteq> s') 0"
| "fdiv f (FNum s m) (FNum s' m') =
     (if m' = 0 then (if m = 0 then FNaN else FInf (s \<noteq> s'))
      else fround f (s \<noteq> s') (m / m'))"

text \<open>The conversions \<^verbatim>\<open>float64(k)\<close> of an integer and \<^verbatim>\<open>float32(x)\<close> of a float64.\<close>

definition float64_of_int :: "int \<Rightarrow> float" where
  "float64_of_int k = fround Binary64 (k < 0) (of_int \<bar>k\<bar>)"

fun float32_of_float64 :: "float \<Rightarrow> float" where
  "float32_of_float64 (FNum s m) = fround Binary32 s m"
| "float32_of_float64 x = x"

text \<open>A float32 constant or literal with an integer value, such as \<^verbatim>\<open>0\<close> or \<^verbatim>\<open>5\<close>.\<close>

definition f32 :: "int \<Rightarrow> float" where
  "f32 k = fround Binary32 (k < 0) (of_int \<bar>k\<bar>)"

subsection \<open>Package time\<close>

text \<open>
  A \<^verbatim>\<open>time.Time\<close> is an instant with nanosecond precision: the number of
  nanoseconds since the Unix epoch (1970-01-01T00:00:00Z), negative before it. The
  location of a \<^verbatim>\<open>Time\<close> changes neither comparisons, nor \<^verbatim>\<open>Unix\<close>, nor
  \<^verbatim>\<open>Sub\<close>, so \<^verbatim>\<open>UTC\<close> is the identity on instants. A \<^verbatim>\<open>time.Duration\<close>
  is an int64 count of nanoseconds; \<^verbatim>\<open>Sub\<close> saturates at its bounds.
\<close>

type_synonym Time = int
type_synonym Duration = int

definition Second :: Duration where
  "Second = 1000000000"

definition UTC :: "Time \<Rightarrow> Time" where
  "UTC t = t"

definition Before :: "Time \<Rightarrow> Time \<Rightarrow> bool" where
  "Before t u = (t < u)"

definition time_Unix :: "Time \<Rightarrow> int" where
  "time_Unix t = t div Second"

text \<open>\<^verbatim>\<open>time.Unix(sec, 0)\<close>\<close>

definition Unix0 :: "int \<Rightarrow> Time" where
  "Unix0 sec = sec * Second"

definition time_Add :: "Time \<Rightarrow> Duration \<Rightarrow> Time" where
  "time_Add t d = t + d"

definition time_Sub :: "Time \<Rightarrow> Time \<Rightarrow> Duration" where
  "time_Sub t u = max (- (2 ^ 63)) (min (2 ^ 63 - 1) (t - u))"

text \<open>
  \<^verbatim>\<open>Duration.Seconds\<close>: \<^verbatim>\<open>float64(d / Second) + float64(d % Second) / 1e9\<close>.
\<close>

definition Seconds :: "Duration \<Rightarrow> float" where
  "Seconds d =
     (let sec = go_quo d Second; nsec = go_rem d Second
      in fadd Binary64 (float64_of_int sec)
           (fdiv Binary64 (float64_of_int nsec) (FNum False 1000000000)))"

text \<open>The zero \<^verbatim>\<open>time.Time\<close> is January 1 of year 1, 00:00:00 UTC.\<close>

definition zeroTime :: Time where
  "zeroTime = - 62135596800 * Second"

section \<open>timebox.go\<close>

definition BoxTime :: "Time \<Rightarrow> int \<Rightarrow> panic + (Time \<times> Time)" where
  "BoxTime t chunk =
     (let unix = time_Unix t
      in if chunk = 0 then Inl IntegerDivideByZero
         else
           let rem = go_rem unix chunk;
               unix = wrap64 (unix - rem);
               start = Unix0 unix;
               stop = Unix0 (wrap64 (unix + chunk))
           in Inr (start, stop))"

section \<open>db.go\<close>

record Db =
  res :: int
  entries :: "float list"
  head :: int
  tail :: int
  currentStart :: Time
  currentStop :: Time
  lastEntry :: Time

text \<open>
  \<^verbatim>\<open>make([]float32, capacity)\<close> panics for a negative length. (It also panics for a
  length beyond the address space, which is left out here.)
\<close>

definition New :: "int \<Rightarrow> int \<Rightarrow> panic + Db" where
  "New resolution capacity =
     (if capacity < 0 then Inl MakeSliceLenOutOfRange
      else Inr \<lparr>res = resolution, entries = replicate (nat capacity) (f32 0),
                head = - 1, tail = - 1,
                currentStart = zeroTime, currentStop = zeroTime, lastEntry = zeroTime\<rparr>)"

definition Db_Res :: "Db \<Rightarrow> int" where
  "Db_Res db = res db"

definition Capacity :: "Db \<Rightarrow> int" where
  "Capacity db = int (length (entries db))"

text \<open>
  \<^verbatim>\<open>moveForward\<close> increments the tail (and the head if necessary) by one position
  and updates the start and stop time of the current timebox.
\<close>

definition moveForward :: "Db \<Rightarrow> panic + Db" where
  "moveForward db =
     (let tl1 = wrap64 (tail db + 1);
          tl2 = (if int (length (entries db)) \<le> tl1 then 0 else tl1);
          hd2 = (if tl2 = head db
                 then (let hd1 = wrap64 (head db + 1)
                       in if int (length (entries db)) \<le> hd1 then 0 else hd1)
                 else head db);
          newTime = time_Add (currentStop db) (wrap64 (1 * Second))
      in case BoxTime newTime (res db) of
           Inl e \<Rightarrow> Inl e
         | Inr (start, stop) \<Rightarrow>
             Inr (db\<lparr>tail := tl2, head := hd2, currentStart := start, currentStop := stop\<rparr>))"

text \<open>
  The catch-up loop of \<^verbatim>\<open>AddAt\<close>:
  \<^verbatim>\<open>for db.currentStop.Before(t) { db.moveForward(); db.entries[db.tail] = 0 }\<close>.
  The result is \<open>None\<close> when the loop does not end.
\<close>

partial_function (option) catchUp :: "Time \<Rightarrow> Db \<Rightarrow> (panic + Db) option" where
  "catchUp t db =
     (if Before (currentStop db) t then
        (case moveForward db of
           Inl e \<Rightarrow> Some (Inl e)
         | Inr db1 \<Rightarrow>
             (case index_set (entries db1) (tail db1) (f32 0) of
                Inl e \<Rightarrow> Some (Inl e)
              | Inr es \<Rightarrow> catchUp t (db1\<lparr>entries := es\<rparr>)))
      else Some (Inr db))"

declare catchUp.simps [code]

text \<open>
  \<^verbatim>\<open>AddAt\<close> returns the updated database together with the lines it printed, a
  panic, or \<open>None\<close> when it does not return.
\<close>

definition AddAt :: "float \<Rightarrow> Time \<Rightarrow> Db \<Rightarrow> (panic + Db \<times> string list) option" where
  "AddAt v t' db =
     (let t = UTC t'
      in case BoxTime t (res db) of
           Inl e \<Rightarrow> Some (Inl e)
         | Inr (t0', t1') \<Rightarrow>
             let t0 = UTC t0'; t1 = UTC t1'
             in if tail db = - 1 then
                  (case index_set (entries db) 0 v of
                     Inl e \<Rightarrow> Some (Inl e)
                   | Inr es \<Rightarrow>
                       Some (Inr (db\<lparr>tail := 0, head := 0, entries := es,
                                      currentStart := t0, currentStop := t1, lastEntry := t\<rparr>, [])))
                else if Before t (lastEntry db) then
                  Some (Inr (db, [''Can't rewrite history.'']))
                else if Before t (currentStop db) then
                  (let prevFill = float32_of_float64 (Seconds (time_Sub (lastEntry db) (currentStart db)));
                       curDuration = float32_of_float64 (Seconds (time_Sub t (lastEntry db)))
                   in case index_get (entries db) (tail db) of
                        Inl e \<Rightarrow> Some (Inl e)
                      | Inr oldval \<Rightarrow>
                          let newval = fdiv Binary32
                                (fadd Binary32 (fmul Binary32 oldval prevFill) (fmul Binary32 v curDuration))
                                (fadd Binary32 prevFill curDuration)
                          in Some (Inr (db\<lparr>entries := (entries db)[nat (tail db) := newval],
                                           lastEntry := t\<rparr>, [])))
                else if Before t (time_Add (currentStop db) (wrap64 (res db * Second))) then
                  (let prevFill = float32_of_float64 (Seconds (time_Sub (lastEntry db) (currentStart db)));
                       curDuration = float32_of_float64 (Seconds (time_Sub (currentStop db) (lastEntry db)))
                   in case index_get (entries db) (tail db) of
                        Inl e \<Rightarrow> Some (Inl e)
                      | Inr oldval \<Rightarrow>
                          (let newval = fdiv Binary32
                                 (fadd Binary32 (fmul Binary32 oldval prevFill) (fmul Binary32 v curDuration))
                                 (fadd Binary32 prevFill curDuration)
                           in (case moveForward (db\<lparr>entries := (entries db)[nat (tail db) := newval]\<rparr>) of
                                 Inl e \<Rightarrow> Some (Inl e)
                               | Inr db1 \<Rightarrow>
                                   (case index_set (entries db1) (tail db1) v of
                                      Inl e \<Rightarrow> Some (Inl e)
                                    | Inr es \<Rightarrow> Some (Inr (db1\<lparr>entries := es, lastEntry := t\<rparr>, []))))))
                else
                  (case catchUp t db of
                     None \<Rightarrow> None
                   | Some (Inl e) \<Rightarrow> Some (Inl e)
                   | Some (Inr db1) \<Rightarrow>
                       (case index_set (entries db1) (tail db1) v of
                          Inl e \<Rightarrow> Some (Inl e)
                        | Inr es \<Rightarrow> Some (Inr (db1\<lparr>entries := es, lastEntry := t\<rparr>, [])))))"

text \<open>\<^verbatim>\<open>Add\<close> inserts at the current time, which the caller of the model supplies.\<close>

definition Add :: "float \<Rightarrow> Time \<Rightarrow> Db \<Rightarrow> (panic + Db \<times> string list) option" where
  "Add v now db = AddAt v now db"

definition Len :: "Db \<Rightarrow> int" where
  "Len db =
     (if tail db = - 1 then 0
      else if head db \<le> tail db then wrap64 (wrap64 (tail db - head db) + 1)
      else wrap64 (wrap64 (wrap64 (int (length (entries db)) - head db) + tail db) + 1))"

definition Get :: "int \<Rightarrow> Db \<Rightarrow> panic + float" where
  "Get i db =
     (if Len db \<le> i then Inl (PanicMsg ''Index out of bounds.'')
      else if head db \<le> tail db then index_get (entries db) (wrap64 (head db + i))
      else
        let j = wrap64 (head db + i)
        in if j < int (length (entries db)) then index_get (entries db) j
           else index_get (entries db) (wrap64 (j - int (length (entries db)))))"

text \<open>Running a list of insertions, stopping at the first panic.\<close>

fun AddAts :: "(float \<times> Time) list \<Rightarrow> Db \<Rightarrow> (panic + Db) option" where
  "AddAts [] db = Some (Inr db)"
| "AddAts ((v, t) # xs) db =
     (case AddAt v t db of
        None \<Rightarrow> None
      | Some (Inl e) \<Rightarrow> Some (Inl e)
      | Some (Inr (db1, out)) \<Rightarrow> AddAts xs db1)"

text \<open>
  The stores that \<^verbatim>\<open>New(r, c)\<close> and any number of returning calls of
  \<^verbatim>\<open>AddAt\<close> produce. The arguments of \<^verbatim>\<open>New\<close> are Go ints, and a slice
  of \<open>c\<close> four-byte values fits a 64-bit address space.
\<close>

inductive reachable :: "int \<Rightarrow> int \<Rightarrow> Db \<Rightarrow> bool" for r c where
  init: "- (2 ^ 63) \<le> r \<Longrightarrow> r < 2 ^ 63 \<Longrightarrow> c < 2 ^ 62 \<Longrightarrow> New r c = Inr db \<Longrightarrow> reachable r c db"
| step: "reachable r c db \<Longrightarrow> AddAt v t db = Some (Inr (db', out)) \<Longrightarrow> reachable r c db'"

text \<open>The logical contents of a store, oldest bucket first, as \<^verbatim>\<open>Get\<close> reads them.\<close>

definition contents :: "Db \<Rightarrow> (panic + float) list" where
  "contents db = map (\<lambda>i. Get (int i) db) [0 ..< nat (Len db)]"

section \<open>persistence.go\<close>

record gobDb =
  Res :: int
  Entries :: "float list"
  Head :: int
  Tail :: int
  CurrentStart :: Time
  CurrentStop :: Time
  LastEntry :: Time

definition gobDbGobVersion :: "8 word" where
  "gobDbGobVersion = 1"

datatype goerror = ErrorsNew string | GobError string

text \<open>
  The package \<^verbatim>\<open>encoding/gob\<close> is outside the repository. Its encoder and decoder
  are parameters of the model: encoding a value gives the bytes appended to the buffer
  or an error; decoding gives the value read and the bytes left in the buffer, or an
  error.
\<close>

record gob =
  Encode_byte :: "8 word \<Rightarrow> goerror + 8 word list"
  Encode_gobDb :: "gobDb \<Rightarrow> goerror + 8 word list"
  Decode_byte :: "8 word list \<Rightarrow> goerror + 8 word \<times> 8 word list"
  Decode_gobDb :: "8 word list \<Rightarrow> goerror + gobDb \<times> 8 word list"

definition GobEncode :: "gob \<Rightarrow> Db \<Rightarrow> goerror + 8 word list" where
  "GobEncode g db =
     (let d = \<lparr>Res = res db, Entries = entries db, Head = head db, Tail = tail db,
               CurrentStart = currentStart db, CurrentStop = currentStop db,
               LastEntry = lastEntry db\<rparr>
      in case Encode_byte g gobDbGobVersion of
           Inl err \<Rightarrow> Inl err
         | Inr b1 \<Rightarrow>
             (case Encode_gobDb g d of
                Inl err \<Rightarrow> Inl err
              | Inr b2 \<Rightarrow> Inr (b1 @ b2)))"

text \<open>
  \<^verbatim>\<open>GobDecode\<close> returns its error (\<open>None\<close> for \<^verbatim>\<open>nil\<close>) and the receiver as it
  is left behind.
\<close>

definition GobDecode :: "gob \<Rightarrow> 8 word list \<Rightarrow> Db \<Rightarrow> goerror option \<times> Db" where
  "GobDecode g b db =
     (if length b = 0 then (Some (ErrorsNew ''rrdb.GobDecode: no data''), db)
      else
        case Decode_byte g b of
          Inl err \<Rightarrow> (Some err, db)
        | Inr (version, buf) \<Rightarrow>
            if version \<noteq> gobDbGobVersion
            then (Some (ErrorsNew ''rrdb.GobDecode: unknown version''), db)
            else
              (case Decode_gobDb g buf of
                 Inl err \<Rightarrow> (Some err, db)
               | Inr (d, buf') \<Rightarrow>
                   (None, db\<lparr>res := Res d, entries := Entries d, head := Head d, tail := Tail d,
                              currentStart := CurrentStart d, currentStop := CurrentStop d,
                              lastEntry := LastEntry d\<rparr>)))"

section \<open>The ring invariant\<close>

text \<open>
  The shape of the head and tail of every store that \<^verbatim>\<open>New\<close> and \<^verbatim>\<open>AddAt\<close>
  produce: the store is empty with both at \<open>-1\<close>, or the tail is a valid index and
  the head is 0 (the ring has not wrapped yet) or one position after the tail (the ring
  is full). A non-empty store has a resolution other than 0, since the first insertion
  divides by it.
\<close>

definition ring_inv :: "Db \<Rightarrow> bool" where
  "ring_inv db \<longleftrightarrow>
     Capacity db < 2 ^ 62 \<and>
     ((tail db = - 1 \<and> head db = - 1) \<or>
      (res db \<noteq> 0 \<and> 0 \<le> tail db \<and> tail db < Capacity db \<and>
       (head db = 0 \<or> head db = (tail db + 1) mod Capacity db)))"

section \<open>Helper facts\<close>

lemma wrap64_id: "- (2 ^ 63) \<le> x \<Longrightarrow> x < 2 ^ 63 \<Longrightarrow> wrap64 x = x"
  by (simp add: wrap64_def)

lemma wrap64_Second: "wrap64 (1 * Second) = Second"
  by (simp add: wrap64_def Second_def)

lemma mod_second_lap:
  assumes "n \<le> (a::int)" "a < 2 * n"
  shows "a mod n = a - n"
proof -
  have "a mod n = (a - n) mod n" by simp
  also have "\<dots> = a - n" using assms by (intro mod_pos_pos_trivial) simp_all
  finally show ?thesis .
qed

lemma succ_mod: "0 \<le> (i::int) \<Longrightarrow> i < n \<Longrightarrow> (i + 1) mod n = (if n \<le> i + 1 then 0 else i + 1)"
proof (cases "n \<le> i + 1")
  case True
  assume "0 \<le> i" "i < n"
  with True have "i + 1 = n" by simp
  with True show ?thesis by simp
next
  case False
  assume "0 \<le> i" "i < n"
  with False show ?thesis by simp
qed

lemma ring_succ:
  assumes "0 \<le> i" "i < int n" "int n < 2 ^ 63"
  shows "(let i1 = wrap64 (i + 1) in if int n \<le> i1 then 0 else i1) = (i + 1) mod int n"
proof -
  have "wrap64 (i + 1) = i + 1" using assms by (intro wrap64_id) auto
  then show ?thesis using assms by (simp add: succ_mod)
qed

lemma moveForward_ok:
  assumes "res db \<noteq> 0" "0 \<le> tail db" "tail db < Capacity db" "Capacity db < 2 ^ 63"
  shows "\<exists>start stop. BoxTime (time_Add (currentStop db) Second) (res db) = Inr (start, stop) \<and>
     moveForward db = Inr (db\<lparr>tail := (tail db + 1) mod Capacity db,
        head := (if (tail db + 1) mod Capacity db = head db
                 then (head db + 1) mod Capacity db else head db),
        currentStart := start, currentStop := stop\<rparr>)"
proof -
  obtain start stop where b: "BoxTime (time_Add (currentStop db) Second) (res db) = Inr (start, stop)"
    using assms(1) by (auto simp add: BoxTime_def Let_def)
  have t: "(let i1 = wrap64 (tail db + 1) in if int (length (entries db)) \<le> i1 then 0 else i1)
       = (tail db + 1) mod Capacity db"
    using assms unfolding Capacity_def by (intro ring_succ) auto
  have tb: "0 \<le> (tail db + 1) mod Capacity db" "(tail db + 1) mod Capacity db < Capacity db"
    using assms by auto
  have h: "(tail db + 1) mod Capacity db = head db \<Longrightarrow>
      (let i1 = wrap64 (head db + 1) in if int (length (entries db)) \<le> i1 then 0 else i1)
       = (head db + 1) mod Capacity db"
    using assms tb unfolding Capacity_def by (intro ring_succ) auto
  show ?thesis
    using b t h unfolding moveForward_def wrap64_Second
    by (auto simp add: Let_def Capacity_def)
qed

section \<open>Timebox alignment\<close>

text \<open>
  C3. \<^verbatim>\<open>BoxTime\<close> is documented to return the chunk in which any point in time
  resides: the start is the greatest multiple of the resolution at or before \<open>t\<close>. The
  remainder of Go's \<^verbatim>\<open>%\<close> is negative for a negative dividend, so for an instant
  before the epoch that is not on a boundary the code rounds towards the epoch instead.
  At 1969-12-31T23:59:59Z with resolution 30 it returns the box from 00:00:00 to
  00:00:30 of 1970-01-01, which starts after \<open>t\<close>.
\<close>

theorem BoxTime_before_epoch:
  "BoxTime (Unix0 (- 1)) 30 = Inr (Unix0 0, Unix0 30) \<and> Before (Unix0 (- 1)) (Unix0 0)"
  by (simp add: BoxTime_def Let_def Unix0_def time_Unix_def Second_def go_rem_def wrap64_def
      Before_def)

text \<open>
  From the epoch on, and as long as the stop time fits an int64, the box is the one the
  documentation promises: the start is a multiple of the resolution, at most \<open>t\<close>, and
  \<open>t\<close> is before the stop, which is the start plus the resolution.
\<close>

lemma BoxTime_from_epoch:
  assumes "1 \<le> chunk" "0 \<le> t" "time_Unix t + chunk < 2 ^ 63"
  shows "\<exists>k. BoxTime t chunk = Inr (Unix0 (k * chunk), Unix0 (k * chunk + chunk)) \<and>
     Unix0 (k * chunk) \<le> t \<and> t < Unix0 (k * chunk + chunk)"
proof -
  define u where "u = time_Unix t"
  have u0: "0 \<le> u" using assms(2) by (simp add: u_def time_Unix_def Second_def)
  have r: "go_rem u chunk = u mod chunk"
    using u0 assms(1) by (cases "u = 0") (simp_all add: go_rem_def)
  have m: "0 \<le> u mod chunk" "u mod chunk < chunk" using assms(1) by auto
  have s: "u - u mod chunk = (u div chunk) * chunk"
    by (simp add: minus_mod_eq_div_mult)
  have le: "u - u mod chunk \<le> u" using m by simp
  have b: "u + chunk < 2 ^ 63" using assms(3) by (simp add: u_def)
  have ge: "0 \<le> u - u mod chunk" using u0 by (simp add: zmod_le_nonneg_dividend)
  have w1: "wrap64 (u - u mod chunk) = u - u mod chunk"
  proof (rule wrap64_id)
    show "- (2 ^ 63) \<le> u - u mod chunk" using ge by simp
    show "u - u mod chunk < 2 ^ 63" using le b assms(1) by linarith
  qed
  have w2: "wrap64 (u - u mod chunk + chunk) = u - u mod chunk + chunk"
  proof (rule wrap64_id)
    show "- (2 ^ 63) \<le> u - u mod chunk + chunk" using ge assms(1) by simp
    show "u - u mod chunk + chunk < 2 ^ 63" using le b by linarith
  qed
  have box: "BoxTime t chunk = Inr (Unix0 (u div chunk * chunk), Unix0 (u div chunk * chunk + chunk))"
    using assms(1) r w1 w2 s by (simp add: BoxTime_def Let_def u_def [symmetric])
  have tu: "u * Second \<le> t" "t < (u + 1) * Second"
    unfolding u_def time_Unix_def Second_def
    by (simp_all add: algebra_simps)
  have lo: "Unix0 (u div chunk * chunk) \<le> t"
  proof -
    have "u div chunk * chunk * Second \<le> u * Second"
      using le s by (simp add: Second_def)
    then show ?thesis using tu by (simp add: Unix0_def)
  qed
  have hi: "t < Unix0 (u div chunk * chunk + chunk)"
  proof -
    have "u + 1 \<le> u div chunk * chunk + chunk" using m s by linarith
    then have "(u + 1) * Second \<le> (u div chunk * chunk + chunk) * Second"
      by (simp add: Second_def)
    then show ?thesis using tu by (simp add: Unix0_def)
  qed
  show ?thesis using box lo hi by blast
qed

section \<open>Insertion\<close>

text \<open>
  C6. On a non-empty store (with a resolution other than 0, as \<^verbatim>\<open>BoxTime\<close>
  divides by it), an insertion at a time before the last entry returns without a panic,
  prints its message, and leaves every field of the store as it was.
\<close>

theorem AddAt_rewrite_history_unchanged:
  assumes "tail db \<noteq> - 1" and "res db \<noteq> 0" and "Before t (lastEntry db)"
  shows "AddAt v t db = Some (Inr (db, [''Can't rewrite history.'']))"
  using assms by (simp add: AddAt_def BoxTime_def Let_def UTC_def)

theorem AddAt_rewrite_history_unchanged_witness:
  "tail \<lparr>res = 30, entries = [f32 5, f32 0], head = 0, tail = 0, currentStart = 0,
         currentStop = 30000000000, lastEntry = 20000000000\<rparr> \<noteq> - 1 \<and>
   res \<lparr>res = 30, entries = [f32 5, f32 0], head = 0, tail = 0, currentStart = 0,
         currentStop = 30000000000, lastEntry = 20000000000\<rparr> \<noteq> 0 \<and>
   Before 10000000000 (lastEntry \<lparr>res = 30, entries = [f32 5, f32 0], head = 0, tail = 0,
         currentStart = 0, currentStop = 30000000000, lastEntry = 20000000000\<rparr>) \<and>
   AddAt (f32 7) 10000000000
       \<lparr>res = 30, entries = [f32 5, f32 0], head = 0, tail = 0, currentStart = 0,
         currentStop = 30000000000, lastEntry = 20000000000\<rparr>
     = Some (Inr (\<lparr>res = 30, entries = [f32 5, f32 0], head = 0, tail = 0, currentStart = 0,
         currentStop = 30000000000, lastEntry = 20000000000\<rparr>, [''Can't rewrite history.'']))"
  using AddAt_rewrite_history_unchanged [of
      "\<lparr>res = 30, entries = [f32 5, f32 0], head = 0, tail = 0, currentStart = 0,
         currentStop = 30000000000, lastEntry = 20000000000\<rparr>" 10000000000 "f32 7"]
  by (simp add: Before_def)

text \<open>
  C4. On a non-empty store whose tail is a valid index, an insertion at a time from the
  last entry on and before the stop of the current bucket replaces the bucket at the
  tail by \<open>(oldValue * priorWeight + v * newWeight) / (priorWeight + newWeight)\<close> in
  float32 arithmetic, where \<open>priorWeight\<close> is the float32 number of seconds from the
  bucket's start to the last entry and \<open>newWeight\<close> that from the last entry to \<open>t\<close>;
  it sets the last entry to \<open>t\<close> and changes nothing else.
\<close>

theorem AddAt_same_bucket:
  assumes "res db \<noteq> 0" and "0 \<le> tail db" and "tail db < Capacity db"
    and "\<not> Before t (lastEntry db)" and "Before t (currentStop db)"
  shows "AddAt v t db =
     (let priorWeight = float32_of_float64 (Seconds (time_Sub (lastEntry db) (currentStart db)));
          newWeight = float32_of_float64 (Seconds (time_Sub t (lastEntry db)));
          oldValue = entries db ! nat (tail db)
      in Some (Inr (db\<lparr>entries := (entries db)[nat (tail db) :=
                 fdiv Binary32
                   (fadd Binary32 (fmul Binary32 oldValue priorWeight) (fmul Binary32 v newWeight))
                   (fadd Binary32 priorWeight newWeight)],
               lastEntry := t\<rparr>, [])))"
  using assms
  by (simp add: AddAt_def BoxTime_def Let_def UTC_def index_get_def Capacity_def)

theorem AddAt_same_bucket_witness:
  "AddAt (f32 10) 20000000000
       \<lparr>res = 30, entries = [f32 5, f32 0], head = 0, tail = 0, currentStart = 0,
         currentStop = 30000000000, lastEntry = 10000000000\<rparr>
     = Some (Inr (\<lparr>res = 30, entries = [FNum False (15 / 2), f32 0], head = 0, tail = 0,
         currentStart = 0, currentStop = 30000000000, lastEntry = 20000000000\<rparr>, []))"
proof -
  let ?db = "\<lparr>res = 30, entries = [f32 5, f32 0], head = 0, tail = 0, currentStart = 0,
         currentStop = 30000000000, lastEntry = 10000000000\<rparr>"
  have h: "res ?db \<noteq> 0" "0 \<le> tail ?db" "tail ?db < Capacity ?db"
    "\<not> Before 20000000000 (lastEntry ?db)" "Before 20000000000 (currentStop ?db)"
    by (simp_all add: Capacity_def Before_def)
  have e: "(let priorWeight = float32_of_float64 (Seconds (time_Sub (lastEntry ?db) (currentStart ?db)));
          newWeight = float32_of_float64 (Seconds (time_Sub 20000000000 (lastEntry ?db)));
          oldValue = entries ?db ! nat (tail ?db)
      in Some (Inr (?db\<lparr>entries := (entries ?db)[nat (tail ?db) :=
                 fdiv Binary32
                   (fadd Binary32 (fmul Binary32 oldValue priorWeight) (fmul Binary32 (f32 10) newWeight))
                   (fadd Binary32 priorWeight newWeight)],
               lastEntry := 20000000000\<rparr>, []) :: panic + Db \<times> string list))
      = Some (Inr (\<lparr>res = 30, entries = [FNum False (15 / 2), f32 0], head = 0, tail = 0,
         currentStart = 0, currentStop = 30000000000, lastEntry = 20000000000\<rparr>, []))"
    by code_simp
  show ?thesis
    using AddAt_same_bucket [OF h, of "f32 10"] e by simp
qed




text \<open>
  The catch-up loop on a store whose current bucket ends on a multiple of a resolution
  of at least 2 seconds, at or after the epoch: every round moves the bucket forward by
  exactly one resolution, so the loop ends, and it ends with the first bucket whose stop
  is at or after \<open>t\<close>. In the gap case \<^verbatim>\<open>AddAt\<close> therefore returns with \<open>t\<close> after the
  start of the final bucket and at or before its stop.
\<close>

lemma time_Unix_mono: "a \<le> b \<Longrightarrow> time_Unix a \<le> time_Unix b"
  by (simp add: time_Unix_def Second_def zdiv_mono1)

lemma time_Unix_Unix0: "time_Unix (Unix0 s + Second) = s + 1"
  by (simp add: time_Unix_def Unix0_def Second_def)

lemma moveForward_aligned:
  assumes "2 \<le> res db" "0 \<le> k" "currentStop db = Unix0 (k * res db)"
    and "0 \<le> tail db" "tail db < Capacity db" "Capacity db < 2 ^ 63"
    and "k * res db + 1 + res db < 2 ^ 63"
  shows "moveForward db = Inr (db\<lparr>tail := (tail db + 1) mod Capacity db,
        head := (if (tail db + 1) mod Capacity db = head db
                 then (head db + 1) mod Capacity db else head db),
        currentStart := Unix0 (k * res db), currentStop := Unix0 ((k + 1) * res db)\<rparr>)"
proof -
  let ?r = "res db"
  have r0: "?r \<noteq> 0" using assms(1) by simp
  from moveForward_ok [OF r0 assms(4-6)] obtain start stop where
    b: "BoxTime (time_Add (currentStop db) Second) ?r = Inr (start, stop)"
    and m: "moveForward db = Inr (db\<lparr>tail := (tail db + 1) mod Capacity db,
        head := (if (tail db + 1) mod Capacity db = head db
                 then (head db + 1) mod Capacity db else head db),
        currentStart := start, currentStop := stop\<rparr>)"
    by blast
  have nt: "time_Add (currentStop db) Second = Unix0 (k * ?r) + Second"
    by (simp add: time_Add_def assms(3))
  have kr: "0 \<le> k * ?r" using assms(1,2) by simp
  have t0: "0 \<le> Unix0 (k * ?r) + Second" using kr by (simp add: Unix0_def Second_def)
  have "1 \<le> ?r" using assms(1) by simp
  from BoxTime_from_epoch [OF this t0] assms(7) obtain j where
    bj: "BoxTime (Unix0 (k * ?r) + Second) ?r = Inr (Unix0 (j * ?r), Unix0 (j * ?r + ?r))"
    and lo: "Unix0 (j * ?r) \<le> Unix0 (k * ?r) + Second"
    and hi: "Unix0 (k * ?r) + Second < Unix0 (j * ?r + ?r)"
    unfolding time_Unix_Unix0 by auto
  have lo': "j * ?r \<le> k * ?r + 1" using lo by (simp add: Unix0_def Second_def)
  have hi': "k * ?r + 1 < j * ?r + ?r" using hi by (simp add: Unix0_def Second_def)
  have "j \<le> k"
  proof (rule ccontr)
    assume "\<not> j \<le> k"
    then have "k + 1 \<le> j" by simp
    then have "(k + 1) * ?r \<le> j * ?r" using assms(1) by (intro mult_right_mono) simp_all
    then show False using lo' assms(1) by (simp add: algebra_simps)
  qed
  moreover have "k \<le> j"
  proof (rule ccontr)
    assume "\<not> k \<le> j"
    then have "j + 1 \<le> k" by simp
    then have "(j + 1) * ?r \<le> k * ?r" using assms(1) by (intro mult_right_mono) simp_all
    then show False using hi' by (simp add: algebra_simps)
  qed
  ultimately have "j = k" by simp
  with bj b nt have "start = Unix0 (k * ?r)" "stop = Unix0 ((k + 1) * ?r)"
    by (simp_all add: algebra_simps)
  with m show ?thesis by simp
qed


lemma catchUp_aligned:
  assumes "2 \<le> res db" "0 \<le> k" "currentStop db = Unix0 (k * res db)"
    and "0 \<le> tail db" "tail db < Capacity db" "Capacity db < 2 ^ 63"
    and "time_Unix t + 1 + res db < 2 ^ 63"
  shows "\<exists>db'. catchUp t db = Some (Inr db') \<and> res db' = res db \<and>
     Capacity db' = Capacity db \<and> 0 \<le> tail db' \<and> tail db' < Capacity db' \<and>
     \<not> Before (currentStop db') t \<and>
     (Before (currentStop db) t \<longrightarrow>
        Before (currentStart db') t \<and>
        currentStop db' = time_Add (currentStart db') (res db * Second) \<and>
        index_get (entries db') (tail db') = Inr (f32 0))"
  using assms
proof (induction "nat (t - currentStop db)" arbitrary: db k rule: less_induct)
  case less
  let ?r = "res db"
  show ?case
  proof (cases "Before (currentStop db) t")
    case False
    then have "catchUp t db = Some (Inr db)" by (subst catchUp.simps) simp
    with False less.prems show ?thesis by simp
  next
    case True
    then have lt: "Unix0 (k * ?r) < t" using less.prems(3) by (simp add: Before_def)
    then have "Unix0 (k * ?r) \<le> t" by simp
    from time_Unix_mono [OF this] have "k * ?r \<le> time_Unix t"
      by (simp add: time_Unix_def Unix0_def Second_def)
    then have ov: "k * ?r + 1 + ?r < 2 ^ 63" using less.prems(7) by simp
    define db1 where "db1 = db\<lparr>tail := (tail db + 1) mod Capacity db,
        head := (if (tail db + 1) mod Capacity db = head db
                 then (head db + 1) mod Capacity db else head db),
        currentStart := Unix0 (k * ?r), currentStop := Unix0 ((k + 1) * ?r)\<rparr>"
    have m: "moveForward db = Inr db1"
      unfolding db1_def by (rule moveForward_aligned [OF less.prems(1-6) ov])
    have cpos: "0 < int (length (entries db))"
      using less.prems(4,5) unfolding Capacity_def by linarith
    have tb: "0 \<le> tail db1" "tail db1 < Capacity db1"
      using cpos by (simp_all add: db1_def Capacity_def)
    define db2 where "db2 = db1\<lparr>entries := (entries db1)[nat (tail db1) := f32 0]\<rparr>"
    have s: "index_set (entries db1) (tail db1) (f32 0) = Inr (entries db2)"
      using tb by (simp add: index_set_def db2_def Capacity_def)
    have step: "catchUp t db = catchUp t db2"
      using True m s by (subst catchUp.simps) (simp add: db2_def)
    have p2: "2 \<le> res db2" "0 \<le> k + 1" "currentStop db2 = Unix0 ((k + 1) * res db2)"
      "0 \<le> tail db2" "tail db2 < Capacity db2" "Capacity db2 < 2 ^ 63"
      "time_Unix t + 1 + res db2 < 2 ^ 63"
      using less.prems tb by (simp_all add: db2_def db1_def Capacity_def)
    have dec: "nat (t - currentStop db2) < nat (t - currentStop db)"
      using True less.prems(1,3) p2(3)
      by (simp add: Before_def db2_def db1_def Unix0_def Second_def algebra_simps)
    from less.hyps [OF dec p2] obtain db' where
      c: "catchUp t db2 = Some (Inr db')" and r: "res db' = res db2"
      and cap: "Capacity db' = Capacity db2" and t': "0 \<le> tail db'" "tail db' < Capacity db'"
      and nb: "\<not> Before (currentStop db') t"
      and ih: "Before (currentStop db2) t \<longrightarrow>
        Before (currentStart db') t \<and>
        currentStop db' = time_Add (currentStart db') (res db2 * Second) \<and>
        index_get (entries db') (tail db') = Inr (f32 0)"
      by blast
    have r2: "res db2 = ?r" "Capacity db2 = Capacity db"
      by (simp_all add: db2_def db1_def Capacity_def)
    have fin: "Before (currentStart db') t \<and>
        currentStop db' = time_Add (currentStart db') (?r * Second) \<and>
        index_get (entries db') (tail db') = Inr (f32 0)"
    proof (cases "Before (currentStop db2) t")
      case True
      with ih r2 show ?thesis by simp
    next
      case False
      then have "catchUp t db2 = Some (Inr db2)" by (subst catchUp.simps) simp
      with c have e: "db' = db2" by simp
      have "index_get (entries db2) (tail db2) = Inr (f32 0)"
        using tb by (simp add: index_get_def db2_def Capacity_def)
      moreover have "currentStop db2 = time_Add (currentStart db2) (?r * Second)"
        by (simp add: db2_def db1_def time_Add_def Unix0_def algebra_simps)
      moreover have "Before (currentStart db2) t"
        using lt by (simp add: db2_def db1_def Before_def)
      ultimately show ?thesis unfolding e by simp
    qed
    show ?thesis
      using step c r cap t' nb fin r2 by simp
  qed
qed


lemma AddAt_gap_aligned:
  assumes "2 \<le> res db" "0 \<le> k" "currentStop db = Unix0 (k * res db)"
    and "0 \<le> tail db" "tail db < Capacity db" "Capacity db < 2 ^ 63"
    and "time_Unix t + 1 + res db < 2 ^ 63" "res db * Second < 2 ^ 63"
    and "\<not> Before t (lastEntry db)"
    and "\<not> Before t (time_Add (currentStop db) (res db * Second))"
  shows "\<exists>db'. AddAt v t db = Some (Inr (db', [])) \<and> lastEntry db' = t \<and>
     index_get (entries db') (tail db') = Inr v \<and>
     Before (currentStart db') t \<and> \<not> Before (currentStop db') t \<and>
     currentStop db' = time_Add (currentStart db') (res db * Second)"
proof -
  have pos: "0 < res db * Second" using assms(1) by (simp add: Second_def)
  have w: "wrap64 (res db * Second) = res db * Second"
    using pos assms(8) by (intro wrap64_id) simp_all
  have ge: "\<not> Before t (currentStop db)" and gt: "Before (currentStop db) t"
    using assms(10) pos by (simp_all add: Before_def time_Add_def)
  have r: "res db \<noteq> 0" using assms(1) by simp
  obtain t0 t1 where b: "BoxTime t (res db) = Inr (t0, t1)"
    using r by (auto simp add: BoxTime_def Let_def)
  from catchUp_aligned [OF assms(1-7)] gt obtain db1 where
    c: "catchUp t db = Some (Inr db1)" and t1: "0 \<le> tail db1" "tail db1 < Capacity db1"
    and nb: "\<not> Before (currentStop db1) t" and sb: "Before (currentStart db1) t"
    and st: "currentStop db1 = time_Add (currentStart db1) (res db * Second)"
    by blast
  have ne: "tail db \<noteq> - 1" using assms(4) by simp
  have "AddAt v t db = Some (Inr (db1\<lparr>entries := (entries db1)[nat (tail db1) := v],
      lastEntry := t\<rparr>, []))"
    using b ne assms(9,10) ge w c t1
    by (simp add: AddAt_def UTC_def Let_def index_set_def Capacity_def)
  moreover have "index_get ((entries db1)[nat (tail db1) := v]) (tail db1) = Inr v"
    using t1 by (simp add: index_get_def Capacity_def)
  ultimately show ?thesis using nb sb st by simp
qed

text \<open>
  C1. In the multi-bucket gap case the ring should advance, filling the skipped buckets
  with 0, until the stop of the current bucket is after \<open>t\<close>, so that \<open>t\<close> lies in the
  final bucket. The loop of \<^verbatim>\<open>AddAt\<close> runs while the stop is before \<open>t\<close>, and so
  ends one bucket early when \<open>t\<close> is on a bucket boundary. With resolution 30, the
  current bucket from second 0 to second 30 and \<open>t\<close> at second 60 (the gap case, as
  the first conjunct says), the store ends with the bucket from 30 to 60 as current,
  holding \<open>v\<close> instead of 0, and with the last entry at the stop of the bucket, whereas
  \<^verbatim>\<open>BoxTime\<close> puts second 60 into the box from 60 to 90.
\<close>

theorem gap_on_boundary:
  "\<not> Before (Unix0 60) (time_Add (Unix0 30) (wrap64 (30 * Second))) \<and>
   AddAt (f32 2) (Unix0 60)
       \<lparr>res = 30, entries = [f32 1, f32 0, f32 0, f32 0, f32 0], head = 0, tail = 0,
         currentStart = Unix0 0, currentStop = Unix0 30, lastEntry = Unix0 1\<rparr>
     = Some (Inr (\<lparr>res = 30, entries = [f32 1, f32 2, f32 0, f32 0, f32 0], head = 0, tail = 1,
         currentStart = Unix0 30, currentStop = Unix0 60, lastEntry = Unix0 60\<rparr>, [])) \<and>
   BoxTime (Unix0 60) 30 = Inr (Unix0 60, Unix0 90)"
  by code_simp

text \<open>
  C10. A first sample at second 30, the start of its bucket of resolution 30, followed by
  a second sample at the same instant: both weights are 0, their sum, the divisor, is 0,
  and the bucket becomes \<open>NaN\<close>. Both calls return without a panic and print nothing,
  and the store has length 1.
\<close>

theorem same_instant_gives_NaN:
  "New 30 5 = Inr \<lparr>res = 30, entries = [f32 0, f32 0, f32 0, f32 0, f32 0], head = - 1, tail = - 1,
       currentStart = zeroTime, currentStop = zeroTime, lastEntry = zeroTime\<rparr> \<and>
   AddAt (f32 5) (Unix0 30)
       \<lparr>res = 30, entries = [f32 0, f32 0, f32 0, f32 0, f32 0], head = - 1, tail = - 1,
         currentStart = zeroTime, currentStop = zeroTime, lastEntry = zeroTime\<rparr>
     = Some (Inr (\<lparr>res = 30, entries = [f32 5, f32 0, f32 0, f32 0, f32 0], head = 0, tail = 0,
         currentStart = Unix0 30, currentStop = Unix0 60, lastEntry = Unix0 30\<rparr>, [])) \<and>
   fadd Binary32 (float32_of_float64 (Seconds (time_Sub (Unix0 30) (Unix0 30))))
       (float32_of_float64 (Seconds (time_Sub (Unix0 30) (Unix0 30)))) = FNum False 0 \<and>
   AddAt (f32 7) (Unix0 30)
       \<lparr>res = 30, entries = [f32 5, f32 0, f32 0, f32 0, f32 0], head = 0, tail = 0,
         currentStart = Unix0 30, currentStop = Unix0 60, lastEntry = Unix0 30\<rparr>
     = Some (Inr (\<lparr>res = 30, entries = [FNaN, f32 0, f32 0, f32 0, f32 0], head = 0, tail = 0,
         currentStart = Unix0 30, currentStop = Unix0 60, lastEntry = Unix0 30\<rparr>, [])) \<and>
   Len \<lparr>res = 30, entries = [FNaN, f32 0, f32 0, f32 0, f32 0], head = 0, tail = 0,
         currentStart = Unix0 30, currentStop = Unix0 60, lastEntry = Unix0 30\<rparr> = 1 \<and>
   Get 0 \<lparr>res = 30, entries = [FNaN, f32 0, f32 0, f32 0, f32 0], head = 0, tail = 0,
         currentStart = Unix0 30, currentStop = Unix0 60, lastEntry = Unix0 30\<rparr> = Inr FNaN"
  by code_simp

section \<open>The ring invariant holds on reachable stores\<close>

lemma New_ring_inv: "c < 2 ^ 62 \<Longrightarrow> New r c = Inr db \<Longrightarrow> ring_inv db"
  by (auto simp add: New_def ring_inv_def Capacity_def split: if_splits)

lemma moveForward_ring_inv:
  assumes "ring_inv db" "tail db \<noteq> - 1" "moveForward db = Inr db1"
  shows "ring_inv db1 \<and> tail db1 \<noteq> - 1 \<and> entries db1 = entries db"
proof -
  have a: "res db \<noteq> 0" "0 \<le> tail db" "tail db < Capacity db" "Capacity db < 2 ^ 63"
    and c62: "Capacity db < 2 ^ 62"
    and h: "head db = 0 \<or> head db = (tail db + 1) mod Capacity db"
    using assms(1,2) by (auto simp add: ring_inv_def)
  from moveForward_ok [OF a] assms(3) obtain start stop where
    d: "db1 = db\<lparr>tail := (tail db + 1) mod Capacity db,
        head := (if (tail db + 1) mod Capacity db = head db
                 then (head db + 1) mod Capacity db else head db),
        currentStart := start, currentStop := stop\<rparr>"
    by auto
  have tb: "0 \<le> (tail db + 1) mod Capacity db" "(tail db + 1) mod Capacity db < Capacity db"
    using a by auto
  show ?thesis
    using a h tb c62 unfolding d ring_inv_def Capacity_def by auto
qed

lemma catchUp_ring_inv_aux:
  assumes "catchUp t db = Some y"
  shows "\<forall>db'. y = Inr db' \<longrightarrow> ring_inv db \<longrightarrow> tail db \<noteq> - 1 \<longrightarrow> ring_inv db' \<and> tail db' \<noteq> - 1"
proof (rule catchUp.raw_induct [where P = "\<lambda>t db y. \<forall>db'. y = Inr db' \<longrightarrow> ring_inv db \<longrightarrow>
    tail db \<noteq> - 1 \<longrightarrow> ring_inv db' \<and> tail db' \<noteq> - 1", OF _ assms])
  fix loop t db y
  assume ih: "\<And>t db y. loop t db = Some y \<Longrightarrow>
      \<forall>db'. y = Inr db' \<longrightarrow> ring_inv db \<longrightarrow> tail db \<noteq> - 1 \<longrightarrow> ring_inv db' \<and> tail db' \<noteq> - 1"
    and body: "(if Before (currentStop db) t
      then case moveForward db of Inl e \<Rightarrow> Some (Inl e)
           | Inr db1 \<Rightarrow>
               (case index_set (entries db1) (tail db1) (f32 0) of
                  Inl e \<Rightarrow> Some (Inl e)
                | Inr es \<Rightarrow> loop t (db1\<lparr>entries := es\<rparr>))
      else Some (Inr db)) = Some y"
  show "\<forall>db'. y = Inr db' \<longrightarrow> ring_inv db \<longrightarrow> tail db \<noteq> - 1 \<longrightarrow> ring_inv db' \<and> tail db' \<noteq> - 1"
  proof (intro allI impI)
    fix db'
    assume y: "y = Inr db'" and inv: "ring_inv db" and ne: "tail db \<noteq> - 1"
    show "ring_inv db' \<and> tail db' \<noteq> - 1"
    proof (cases "Before (currentStop db) t")
      case False
      with body y inv ne show ?thesis by simp
    next
      case True
      with body y obtain db1 es where m: "moveForward db = Inr db1"
        and s: "index_set (entries db1) (tail db1) (f32 0) = Inr es"
        and c: "loop t (db1\<lparr>entries := es\<rparr>) = Some (Inr db')"
        by (auto split: sum.splits)
      from moveForward_ring_inv [OF inv ne m] have i: "ring_inv db1" "tail db1 \<noteq> - 1" by auto
      from s have "length es = length (entries db1)"
        by (auto simp add: index_set_def split: if_splits)
      with i have "ring_inv (db1\<lparr>entries := es\<rparr>)" "tail (db1\<lparr>entries := es\<rparr>) \<noteq> - 1"
        by (simp_all add: ring_inv_def Capacity_def)
      with ih [OF c] show ?thesis by simp
    qed
  qed
qed

lemma catchUp_ring_inv:
  "catchUp t db = Some (Inr db') \<Longrightarrow> ring_inv db \<Longrightarrow> tail db \<noteq> - 1 \<Longrightarrow>
     ring_inv db' \<and> tail db' \<noteq> - 1"
  using catchUp_ring_inv_aux by blast

lemma AddAt_ring_inv:
  assumes "ring_inv db" "AddAt v t db = Some (Inr (db', out))"
  shows "ring_inv db'"
proof -
  from assms(2) obtain t0 t1 where b: "BoxTime t (res db) = Inr (t0, t1)"
    by (auto simp add: AddAt_def UTC_def Let_def split: sum.splits)
  then have r: "res db \<noteq> 0" by (auto simp add: BoxTime_def Let_def split: if_splits)
  show ?thesis
  proof (cases "tail db = - 1")
    case True
    with assms b r show ?thesis
      by (auto simp add: AddAt_def UTC_def Let_def ring_inv_def Capacity_def index_set_def
          split: sum.splits if_splits)
  next
    case ne: False
    consider (old) "Before t (lastEntry db)"
      | (same) "\<not> Before t (lastEntry db)" "Before t (currentStop db)"
      | (one) "\<not> Before t (lastEntry db)" "\<not> Before t (currentStop db)"
          "Before t (time_Add (currentStop db) (wrap64 (res db * Second)))"
      | (gap) "\<not> Before t (lastEntry db)" "\<not> Before t (currentStop db)"
          "\<not> Before t (time_Add (currentStop db) (wrap64 (res db * Second)))"
      by blast
    then show ?thesis
    proof cases
      case old
      with assms b ne show ?thesis by (simp add: AddAt_def UTC_def Let_def)
    next
      case same
      with assms b ne show ?thesis
        by (auto simp add: AddAt_def UTC_def Let_def ring_inv_def Capacity_def split: sum.splits)
    next
      case one
      with assms(2) b ne obtain nv db1 es where
        m: "moveForward (db\<lparr>entries := (entries db)[nat (tail db) := nv]\<rparr>) = Inr db1"
        and s: "index_set (entries db1) (tail db1) v = Inr es"
        and d: "db' = db1\<lparr>entries := es, lastEntry := t\<rparr>"
        by (auto simp add: AddAt_def UTC_def Let_def split: sum.splits)
      have "ring_inv (db\<lparr>entries := (entries db)[nat (tail db) := nv]\<rparr>)"
        using assms(1) by (simp add: ring_inv_def Capacity_def)
      from moveForward_ring_inv [OF this _ m] ne have i: "ring_inv db1" by simp
      from s have "length es = length (entries db1)"
        by (auto simp add: index_set_def split: if_splits)
      with i show ?thesis unfolding d by (simp add: ring_inv_def Capacity_def)
    next
      case gap
      with assms(2) b ne obtain db1 es where
        c: "catchUp t db = Some (Inr db1)"
        and s: "index_set (entries db1) (tail db1) v = Inr es"
        and d: "db' = db1\<lparr>entries := es, lastEntry := t\<rparr>"
        by (auto simp add: AddAt_def UTC_def Let_def split: sum.splits option.splits)
      from catchUp_ring_inv [OF c assms(1) ne] have i: "ring_inv db1" by simp
      from s have "length es = length (entries db1)"
        by (auto simp add: index_set_def split: if_splits)
      with i show ?thesis unfolding d by (simp add: ring_inv_def Capacity_def)
    qed
  qed
qed

lemma reachable_ring_inv: "reachable r c db \<Longrightarrow> ring_inv db"
  by (induction rule: reachable.induct) (auto intro: New_ring_inv AddAt_ring_inv)


lemma Len_nonempty:
  assumes "ring_inv db" "tail db \<noteq> - 1"
  shows "Len db = (if head db \<le> tail db then tail db - head db + 1
                   else Capacity db - head db + tail db + 1)"
proof -
  have a: "0 \<le> tail db" "tail db < Capacity db" "Capacity db < 2 ^ 62"
    "0 \<le> head db" "head db < Capacity db"
    using assms by (auto simp add: ring_inv_def)
  have w1: "wrap64 (tail db - head db) = tail db - head db"
    using a by (intro wrap64_id) simp_all
  have w2: "wrap64 (tail db - head db + 1) = tail db - head db + 1"
    using a by (intro wrap64_id) simp_all
  have w3: "wrap64 (Capacity db - head db) = Capacity db - head db"
    using a by (intro wrap64_id) simp_all
  have w4: "wrap64 (Capacity db - head db + tail db) = Capacity db - head db + tail db"
    using a by (intro wrap64_id) simp_all
  have w5: "wrap64 (Capacity db - head db + tail db + 1) = Capacity db - head db + tail db + 1"
    using a by (intro wrap64_id) simp_all
  show ?thesis
    using assms(2) w1 w2 w3 w4 w5 by (simp add: Len_def Capacity_def)
qed

lemma Len_le_Capacity:
  assumes "ring_inv db"
  shows "0 \<le> Len db \<and> Len db \<le> Capacity db"
proof (cases "tail db = - 1")
  case True
  then show ?thesis by (simp add: Len_def Capacity_def)
next
  case False
  have a: "0 \<le> tail db" "tail db < Capacity db"
    "head db = 0 \<or> head db = (tail db + 1) mod Capacity db"
    using assms False by (auto simp add: ring_inv_def)
  have "(tail db + 1) mod Capacity db = (if Capacity db \<le> tail db + 1 then 0 else tail db + 1)"
    using a by (intro succ_mod) simp_all
  then show ?thesis
    using a unfolding Len_nonempty [OF assms False] by (auto split: if_splits)
qed

lemma full_head:
  assumes "ring_inv db" "tail db \<noteq> - 1"
  shows "Len db = Capacity db \<longleftrightarrow> head db = (tail db + 1) mod Capacity db"
proof -
  have a: "0 \<le> tail db" "tail db < Capacity db"
    "head db = 0 \<or> head db = (tail db + 1) mod Capacity db"
    using assms by (auto simp add: ring_inv_def)
  have "(tail db + 1) mod Capacity db = (if Capacity db \<le> tail db + 1 then 0 else tail db + 1)"
    using a by (intro succ_mod) simp_all
  then show ?thesis
    using a unfolding Len_nonempty [OF assms] by (auto split: if_splits)
qed

lemma Get_nonempty:
  assumes "ring_inv db" "tail db \<noteq> - 1" "0 \<le> i" "i < Len db"
  shows "Get i db = Inr (entries db ! nat ((head db + i) mod Capacity db))"
proof -
  have a: "0 \<le> tail db" "tail db < Capacity db" "Capacity db < 2 ^ 62"
    "head db = 0 \<or> head db = (tail db + 1) mod Capacity db"
    using assms by (auto simp add: ring_inv_def)
  have sm: "(tail db + 1) mod Capacity db = (if Capacity db \<le> tail db + 1 then 0 else tail db + 1)"
    using a by (intro succ_mod) simp_all
  have hb: "0 \<le> head db" "head db < Capacity db" using a sm by (auto split: if_splits)
  have il: "i < Capacity db" using assms(4) Len_le_Capacity [OF assms(1)] by simp
  have w: "wrap64 (head db + i) = head db + i"
    using a(3) hb il assms(3) by (intro wrap64_id) simp_all
  show ?thesis
  proof (cases "head db \<le> tail db")
    case True
    then have "i < tail db - head db + 1" using assms(4) Len_nonempty [OF assms(1,2)] by simp
    then have r: "head db + i < Capacity db" using a by simp
    then have "(head db + i) mod Capacity db = head db + i" using hb assms(3) by simp
    then show ?thesis
      using True r w hb assms(3,4) by (simp add: Get_def index_get_def Capacity_def)
  next
    case False
    show ?thesis
    proof (cases "head db + i < Capacity db")
      case True
      then have "(head db + i) mod Capacity db = head db + i" using hb assms(3) by simp
      then show ?thesis
        using \<open>\<not> head db \<le> tail db\<close> True w hb assms(3,4)
        by (simp add: Get_def index_get_def Capacity_def Let_def)
    next
      case ge: False
      have w2: "wrap64 (head db + i - Capacity db) = head db + i - Capacity db"
        using a(3) hb il assms(3) ge by (intro wrap64_id) simp_all
      have "(head db + i) mod Capacity db = head db + i - Capacity db"
        using hb il ge by (intro mod_second_lap) simp_all
      then show ?thesis
        using \<open>\<not> head db \<le> tail db\<close> ge w w2 hb il assms(3,4)
        by (simp add: Get_def index_get_def Capacity_def Let_def)
    qed
  qed
qed

lemma ring_shift:
  assumes "0 \<le> (h::int)" "h < n" "0 \<le> i" "i + 1 < n"
  shows "((h + 1) mod n + i) mod n = (h + (i + 1)) mod n" and "(h + (i + 1)) mod n \<noteq> h"
proof -
  have a: "((h + 1) mod n + i) mod n = (h + 1 + i) mod n"
    by (rule mod_add_left_eq)
  have b: "h + 1 + i = h + (i + 1)" by simp
  show "((h + 1) mod n + i) mod n = (h + (i + 1)) mod n"
    using a unfolding b .
  show "(h + (i + 1)) mod n \<noteq> h"
  proof (cases "h + (i + 1) < n")
    case True
    then have "(h + (i + 1)) mod n = h + (i + 1)" using assms by simp
    then show ?thesis using assms by simp
  next
    case False
    then have "(h + (i + 1)) mod n = h + (i + 1) - n"
      using assms by (intro mod_second_lap) simp_all
    then show ?thesis using assms by simp
  qed
qed

lemma ring_last:
  assumes "0 \<le> (h::int)" "h < n"
  shows "((h + 1) mod n + (n - 1)) mod n = h"
proof -
  have "((h + 1) mod n + (n - 1)) mod n = (h + 1 + (n - 1)) mod n"
    by (simp add: mod_add_left_eq)
  also have "\<dots> = (h + n) mod n" by (simp add: algebra_simps)
  also have "\<dots> = h" using assms by simp
  finally show ?thesis .
qed

lemma full_advance:
  assumes "ring_inv db" "tail db \<noteq> - 1" "Len db = Capacity db"
  shows "\<exists>db1. moveForward db = Inr db1 \<and> ring_inv db1 \<and> tail db1 \<noteq> - 1 \<and>
     entries db1 = entries db \<and> tail db1 = head db \<and>
     head db1 = (head db + 1) mod Capacity db \<and> Len db1 = Capacity db1"
proof -
  have a: "res db \<noteq> 0" "0 \<le> tail db" "tail db < Capacity db" "Capacity db < 2 ^ 63"
    using assms(1,2) by (auto simp add: ring_inv_def)
  have h: "head db = (tail db + 1) mod Capacity db"
    using full_head [OF assms(1,2)] assms(3) by simp
  from moveForward_ok [OF a] obtain start stop where
    m: "moveForward db = Inr (db\<lparr>tail := (tail db + 1) mod Capacity db,
        head := (if (tail db + 1) mod Capacity db = head db
                 then (head db + 1) mod Capacity db else head db),
        currentStart := start, currentStop := stop\<rparr>)"
    by auto
  define db1 where "db1 = db\<lparr>tail := (tail db + 1) mod Capacity db,
        head := (if (tail db + 1) mod Capacity db = head db
                 then (head db + 1) mod Capacity db else head db),
        currentStart := start, currentStop := stop\<rparr>"
  have m1: "moveForward db = Inr db1" using m by (simp add: db1_def)
  from moveForward_ring_inv [OF assms(1,2) m1]
  have i: "ring_inv db1" "tail db1 \<noteq> - 1" "entries db1 = entries db" by auto
  have t1: "tail db1 = head db" using h by (simp add: db1_def)
  have c1: "Capacity db1 = Capacity db" using i(3) by (simp add: Capacity_def)
  have h1: "head db1 = (head db + 1) mod Capacity db" using h by (simp add: db1_def)
  have "Len db1 = Capacity db1"
    using full_head [OF i(1,2)] t1 h1 c1 by simp
  with m1 i t1 h1 show ?thesis by blast
qed

lemma full_advance_Get:
  assumes "ring_inv db" "tail db \<noteq> - 1" "Len db = Capacity db"
    and "moveForward db = Inr db1" "1 < Capacity db"
  shows "Get 0 db1 = Get 1 db"
proof -
  from full_advance [OF assms(1-3)] assms(4) have
    i: "ring_inv db1" "tail db1 \<noteq> - 1" "entries db1 = entries db"
       "head db1 = (head db + 1) mod Capacity db" "Len db1 = Capacity db1"
    by auto
  have c1: "Capacity db1 = Capacity db" using i(3) by (simp add: Capacity_def)
  have "Get 0 db1 = Inr (entries db1 ! nat ((head db1 + 0) mod Capacity db1))"
    using assms(5) i(5) c1 by (intro Get_nonempty [OF i(1,2)]) simp_all
  moreover have "Get 1 db = Inr (entries db ! nat ((head db + 1) mod Capacity db))"
    using assms(3,5) by (intro Get_nonempty [OF assms(1,2)]) simp_all
  ultimately show ?thesis using i(3,4) c1 by simp
qed

lemma full_advance_contents:
  assumes "ring_inv db" "tail db \<noteq> - 1" "Len db = Capacity db"
    and "moveForward db = Inr db1"
  shows "contents (db1\<lparr>entries := (entries db1)[nat (tail db1) := x]\<rparr>) = tl (contents db) @ [Inr x]"
proof -
  from full_advance [OF assms(1-3)] assms(4) have
    i: "ring_inv db1" "tail db1 \<noteq> - 1" "entries db1 = entries db" "tail db1 = head db"
       "head db1 = (head db + 1) mod Capacity db" "Len db1 = Capacity db1"
    by auto
  define n where "n = Capacity db"
  define db2 where "db2 = db1\<lparr>entries := (entries db1)[nat (tail db1) := x]\<rparr>"
  have c1: "Capacity db1 = n" using i(3) by (simp add: Capacity_def n_def)
  have c2: "Capacity db2 = n" using c1 by (simp add: Capacity_def db2_def)
  have hb: "0 \<le> head db" "head db < n" "0 < n"
    using i(1,2,4) c1 by (auto simp add: ring_inv_def)
  have i2: "ring_inv db2" "tail db2 \<noteq> - 1"
    using i(1,2) by (simp_all add: ring_inv_def Capacity_def db2_def)
  have h2: "head db2 = (head db + 1) mod n" "tail db2 = head db"
    using i(4,5) by (simp_all add: db2_def n_def)
  have l2: "Len db2 = n"
    using full_head [OF i2] h2 c2 by simp
  have e2: "entries db2 = (entries db)[nat (head db) := x]"
    using i(3,4) by (simp add: db2_def)
  have len: "int (length (entries db)) = n" by (simp add: n_def Capacity_def)
  have g2: "Get (int k) db2 = Inr (entries db2 ! nat ((head db2 + int k) mod n))" if "int k < n" for k
    using Get_nonempty [OF i2, of "int k"] that l2 c2 by simp
  have g: "Get (int k) db = Inr (entries db ! nat ((head db + int k) mod n))" if "int k < n" for k
    using Get_nonempty [OF assms(1,2), of "int k"] that assms(3) by (simp add: n_def)
  have "contents db2 = tl (contents db) @ [Inr x]"
  proof (rule nth_equalityI)
    show "length (contents db2) = length (tl (contents db) @ [Inr x])"
      using l2 assms(3) hb by (simp add: contents_def n_def [symmetric])
  next
    fix k
    assume "k < length (contents db2)"
    then have k: "int k < n" using l2 by (simp add: contents_def)
    have kn': "k < nat n" using k by simp
    have lhs: "contents db2 ! k = Inr (entries db2 ! nat ((head db2 + int k) mod n))"
      using k kn' l2 g2 by (simp add: contents_def)
    show "contents db2 ! k = (tl (contents db) @ [Inr x]) ! k"
    proof (cases "int k + 1 < n")
      case True
      have s: "((head db + 1) mod n + int k) mod n = (head db + (int k + 1)) mod n"
        "(head db + (int k + 1)) mod n \<noteq> head db"
        using ring_shift [OF hb(1,2) _ True] by simp_all
      have p: "0 \<le> (head db + (int k + 1)) mod n" using hb by simp
      have ne: "nat ((head db + (int k + 1)) mod n) \<noteq> nat (head db)"
        using s(2) p hb(1) by simp
      have sk: "Suc k < nat n" using True by simp
      have ltl: "k < length (tl (contents db))"
        using sk assms(3) by (simp add: contents_def n_def [symmetric])
      have "(tl (contents db) @ [Inr x]) ! k = tl (contents db) ! k"
        using ltl by (simp add: nth_append)
      also have "\<dots> = contents db ! Suc k"
        using ltl by (simp add: nth_tl)
      also have "\<dots> = Get (int (Suc k)) db"
        using sk assms(3) by (simp add: contents_def n_def [symmetric] del: upt_Suc)
      also have "\<dots> = Inr (entries db ! nat ((head db + int (Suc k)) mod n))"
        using True by (intro g) simp
      finally show ?thesis
        using lhs s ne by (simp add: h2 e2 add.commute)
    next
      case False
      with k have kn: "int k = n - 1" by simp
      have s: "((head db + 1) mod n + int k) mod n = head db"
        unfolding kn by (rule ring_last [OF hb(1,2)])
      have "length (contents db) = nat n"
        using assms(3) by (simp add: contents_def n_def [symmetric])
      then have "length (tl (contents db)) = k" using kn by simp
      then have "(tl (contents db) @ [Inr x]) ! k = Inr x"
        using nth_append_length [of "tl (contents db)" "Inr x" "[]"] by simp
      then show ?thesis
        using lhs s hb len by (simp add: h2 e2)
    qed
  qed
  then show ?thesis by (simp add: db2_def)
qed

lemma set_entries_same:
  assumes "length es = length (entries db)"
  shows "ring_inv (db\<lparr>entries := es\<rparr>) = ring_inv db"
    and "Len (db\<lparr>entries := es\<rparr>) = Len db"
    and "Capacity (db\<lparr>entries := es\<rparr>) = Capacity db"
    and "ring_inv (db\<lparr>entries := es, lastEntry := t\<rparr>) = ring_inv db"
    and "Len (db\<lparr>entries := es, lastEntry := t\<rparr>) = Len db"
    and "Capacity (db\<lparr>entries := es, lastEntry := t\<rparr>) = Capacity db"
  using assms by (simp_all add: ring_inv_def Len_def Capacity_def)

lemma set_entries_full:
  assumes "ring_inv db \<and> tail db \<noteq> - 1 \<and> Len db = Capacity db" "length es = length (entries db)"
  shows "ring_inv (db\<lparr>entries := es, lastEntry := t\<rparr>) \<and> tail (db\<lparr>entries := es, lastEntry := t\<rparr>) \<noteq> - 1 \<and>
     Len (db\<lparr>entries := es, lastEntry := t\<rparr>) = Capacity (db\<lparr>entries := es, lastEntry := t\<rparr>)"
  using assms(1) set_entries_same(4-6) [OF assms(2)] by simp

lemma catchUp_full_aux:
  assumes "catchUp t db = Some y"
  shows "\<forall>db'. y = Inr db' \<longrightarrow> ring_inv db \<and> tail db \<noteq> - 1 \<and> Len db = Capacity db \<longrightarrow>
     ring_inv db' \<and> tail db' \<noteq> - 1 \<and> Len db' = Capacity db'"
proof (rule catchUp.raw_induct [where P = "\<lambda>t db y. \<forall>db'. y = Inr db' \<longrightarrow>
    ring_inv db \<and> tail db \<noteq> - 1 \<and> Len db = Capacity db \<longrightarrow>
    ring_inv db' \<and> tail db' \<noteq> - 1 \<and> Len db' = Capacity db'", OF _ assms])
  fix loop t db y
  assume ih: "\<And>t db y. loop t db = Some y \<Longrightarrow>
      \<forall>db'. y = Inr db' \<longrightarrow> ring_inv db \<and> tail db \<noteq> - 1 \<and> Len db = Capacity db \<longrightarrow>
        ring_inv db' \<and> tail db' \<noteq> - 1 \<and> Len db' = Capacity db'"
    and body: "(if Before (currentStop db) t
      then case moveForward db of Inl e \<Rightarrow> Some (Inl e)
           | Inr db1 \<Rightarrow>
               (case index_set (entries db1) (tail db1) (f32 0) of
                  Inl e \<Rightarrow> Some (Inl e)
                | Inr es \<Rightarrow> loop t (db1\<lparr>entries := es\<rparr>))
      else Some (Inr db)) = Some y"
  show "\<forall>db'. y = Inr db' \<longrightarrow> ring_inv db \<and> tail db \<noteq> - 1 \<and> Len db = Capacity db \<longrightarrow>
      ring_inv db' \<and> tail db' \<noteq> - 1 \<and> Len db' = Capacity db'"
  proof (intro allI impI)
    fix db'
    assume y: "y = Inr db'" and inv: "ring_inv db \<and> tail db \<noteq> - 1 \<and> Len db = Capacity db"
    show "ring_inv db' \<and> tail db' \<noteq> - 1 \<and> Len db' = Capacity db'"
    proof (cases "Before (currentStop db) t")
      case False
      with body y inv show ?thesis by simp
    next
      case True
      with body y obtain db1 es where m: "moveForward db = Inr db1"
        and s: "index_set (entries db1) (tail db1) (f32 0) = Inr es"
        and c: "loop t (db1\<lparr>entries := es\<rparr>) = Some (Inr db')"
        by (auto split: sum.splits)
      from full_advance [of db] inv m
      have i: "ring_inv db1 \<and> tail db1 \<noteq> - 1 \<and> Len db1 = Capacity db1" by auto
      from s have "length es = length (entries db1)"
        by (auto simp add: index_set_def split: if_splits)
      from set_entries_same(1-3) [OF this] i
      have "ring_inv (db1\<lparr>entries := es\<rparr>) \<and> tail (db1\<lparr>entries := es\<rparr>) \<noteq> - 1 \<and>
          Len (db1\<lparr>entries := es\<rparr>) = Capacity (db1\<lparr>entries := es\<rparr>)"
        by simp
      with ih [OF c] show ?thesis by simp
    qed
  qed
qed

lemma AddAt_full:
  assumes inv: "ring_inv db \<and> tail db \<noteq> - 1 \<and> Len db = Capacity db"
    and add: "AddAt v t db = Some (Inr (db', out))"
  shows "Len db' = Capacity db'"
proof -
  from add obtain t0 t1 where b: "BoxTime t (res db) = Inr (t0, t1)"
    by (auto simp add: AddAt_def UTC_def Let_def split: sum.splits)
  from inv have ne: "tail db \<noteq> - 1" by simp
  consider (old) "Before t (lastEntry db)"
    | (same) "\<not> Before t (lastEntry db)" "Before t (currentStop db)"
    | (one) "\<not> Before t (lastEntry db)" "\<not> Before t (currentStop db)"
        "Before t (time_Add (currentStop db) (wrap64 (res db * Second)))"
    | (gap) "\<not> Before t (lastEntry db)" "\<not> Before t (currentStop db)"
        "\<not> Before t (time_Add (currentStop db) (wrap64 (res db * Second)))"
    by blast
  then show ?thesis
  proof cases
    case old
    with add b ne inv show ?thesis by (simp add: AddAt_def UTC_def Let_def)
  next
    case same
    with add b ne obtain nv where d: "db' = db\<lparr>entries := (entries db)[nat (tail db) := nv], lastEntry := t\<rparr>"
      by (auto simp add: AddAt_def UTC_def Let_def split: sum.splits)
    show ?thesis unfolding d using set_entries_full [OF inv, of "(entries db)[nat (tail db) := nv]" t] by simp
  next
    case one
    with add b ne obtain nv db1 es where
      m: "moveForward (db\<lparr>entries := (entries db)[nat (tail db) := nv]\<rparr>) = Inr db1"
      and s: "index_set (entries db1) (tail db1) v = Inr es"
      and d: "db' = db1\<lparr>entries := es, lastEntry := t\<rparr>"
      by (auto simp add: AddAt_def UTC_def Let_def split: sum.splits)
    have "ring_inv (db\<lparr>entries := (entries db)[nat (tail db) := nv]\<rparr>) \<and>
        tail (db\<lparr>entries := (entries db)[nat (tail db) := nv]\<rparr>) \<noteq> - 1 \<and>
        Len (db\<lparr>entries := (entries db)[nat (tail db) := nv]\<rparr>)
          = Capacity (db\<lparr>entries := (entries db)[nat (tail db) := nv]\<rparr>)"
      using inv set_entries_same(1-3) [of "(entries db)[nat (tail db) := nv]" db] by simp
    from full_advance [of "db\<lparr>entries := (entries db)[nat (tail db) := nv]\<rparr>"] this m
    have i: "ring_inv db1 \<and> tail db1 \<noteq> - 1 \<and> Len db1 = Capacity db1" by auto
    from s have "length es = length (entries db1)"
      by (auto simp add: index_set_def split: if_splits)
    from set_entries_full [OF i this] show ?thesis unfolding d by simp
  next
    case gap
    with add b ne obtain db1 es where
      c: "catchUp t db = Some (Inr db1)"
      and s: "index_set (entries db1) (tail db1) v = Inr es"
      and d: "db' = db1\<lparr>entries := es, lastEntry := t\<rparr>"
      by (auto simp add: AddAt_def UTC_def Let_def split: sum.splits option.splits)
    from catchUp_full_aux [OF c] inv
    have i: "ring_inv db1 \<and> tail db1 \<noteq> - 1 \<and> Len db1 = Capacity db1" by simp
    from s have "length es = length (entries db1)"
      by (auto simp add: index_set_def split: if_splits)
    from set_entries_full [OF i this] show ?thesis unfolding d by simp
  qed
qed

section \<open>Length and eviction\<close>

text \<open>
  C7. For every store reachable from \<^verbatim>\<open>New\<close> by insertions, \<^verbatim>\<open>Len\<close> is at most
  \<^verbatim>\<open>Capacity\<close>. Once a non-empty store has \<^verbatim>\<open>Len\<close> equal to \<^verbatim>\<open>Capacity\<close>,
  every further insertion that returns leaves it so, and every advance of the ring
  (\<^verbatim>\<open>moveForward\<close>) moves the head forward by one position modulo the capacity and
  keeps \<^verbatim>\<open>Len\<close> at \<^verbatim>\<open>Capacity\<close>: \<^verbatim>\<open>Get(0)\<close> then reads the bucket that was
  \<^verbatim>\<open>Get(1)\<close> before, and once the new tail is written with a value \<open>x\<close> the logical
  contents are the old ones without the oldest bucket, followed by \<open>x\<close>.
\<close>

theorem ring_eviction:
  assumes "reachable r c db"
  shows "Len db \<le> Capacity db \<and>
     (tail db \<noteq> - 1 \<longrightarrow> Len db = Capacity db \<longrightarrow>
        (\<forall>v t db' out. AddAt v t db = Some (Inr (db', out)) \<longrightarrow> Len db' = Capacity db') \<and>
        (\<exists>db1. moveForward db = Inr db1 \<and> Len db1 = Capacity db1 \<and>
           Capacity db1 = Capacity db \<and> head db1 = (head db + 1) mod Capacity db \<and>
           (1 < Capacity db \<longrightarrow> Get 0 db1 = Get 1 db) \<and>
           (\<forall>x. contents (db1\<lparr>entries := (entries db1)[nat (tail db1) := x]\<rparr>)
                  = tl (contents db) @ [Inr x])))"
proof -
  have inv: "ring_inv db" using assms by (rule reachable_ring_inv)
  have le: "Len db \<le> Capacity db" using Len_le_Capacity [OF inv] by simp
  have full: "(\<forall>v t db' out. AddAt v t db = Some (Inr (db', out)) \<longrightarrow> Len db' = Capacity db') \<and>
        (\<exists>db1. moveForward db = Inr db1 \<and> Len db1 = Capacity db1 \<and>
           Capacity db1 = Capacity db \<and> head db1 = (head db + 1) mod Capacity db \<and>
           (1 < Capacity db \<longrightarrow> Get 0 db1 = Get 1 db) \<and>
           (\<forall>x. contents (db1\<lparr>entries := (entries db1)[nat (tail db1) := x]\<rparr>)
                  = tl (contents db) @ [Inr x]))"
    if ne: "tail db \<noteq> - 1" and f: "Len db = Capacity db"
  proof
    show "\<forall>v t db' out. AddAt v t db = Some (Inr (db', out)) \<longrightarrow> Len db' = Capacity db'"
      using AddAt_full [of db] inv ne f by blast
    from full_advance [OF inv ne f] obtain db1 where
      m: "moveForward db = Inr db1" and e: "entries db1 = entries db"
      and h: "head db1 = (head db + 1) mod Capacity db" and l: "Len db1 = Capacity db1"
      by blast
    have c: "Capacity db1 = Capacity db" using e by (simp add: Capacity_def)
    have g: "1 < Capacity db \<longrightarrow> Get 0 db1 = Get 1 db"
      using full_advance_Get [OF inv ne f m] by simp
    have k: "\<forall>x. contents (db1\<lparr>entries := (entries db1)[nat (tail db1) := x]\<rparr>)
                  = tl (contents db) @ [Inr x]"
      using full_advance_contents [OF inv ne f m] by simp
    show "\<exists>db1. moveForward db = Inr db1 \<and> Len db1 = Capacity db1 \<and>
           Capacity db1 = Capacity db \<and> head db1 = (head db + 1) mod Capacity db \<and>
           (1 < Capacity db \<longrightarrow> Get 0 db1 = Get 1 db) \<and>
           (\<forall>x. contents (db1\<lparr>entries := (entries db1)[nat (tail db1) := x]\<rparr>)
                  = tl (contents db) @ [Inr x])"
      using m l c h g k by blast
  qed
  show ?thesis using le full by blast
qed

theorem ring_eviction_witness:
  "reachable 30 2 \<lparr>res = 30, entries = [f32 5, f32 5], head = 0, tail = 1,
       currentStart = 30000000000, currentStop = 60000000000, lastEntry = 31000000000\<rparr> \<and>
   Len \<lparr>res = 30, entries = [f32 5, f32 5], head = 0, tail = 1,
       currentStart = 30000000000, currentStop = 60000000000, lastEntry = 31000000000\<rparr> = 2 \<and>
   (\<exists>db1. moveForward \<lparr>res = 30, entries = [f32 5, f32 5], head = 0, tail = 1,
       currentStart = 30000000000, currentStop = 60000000000, lastEntry = 31000000000\<rparr> = Inr db1 \<and>
       Len db1 = 2 \<and> head db1 = 1 \<and>
       Get 0 db1 = Get 1 \<lparr>res = 30, entries = [f32 5, f32 5], head = 0, tail = 1,
       currentStart = 30000000000, currentStop = 60000000000, lastEntry = 31000000000\<rparr>)"
proof -
  let ?d0 = "\<lparr>res = 30, entries = [f32 0, f32 0], head = - 1, tail = - 1,
       currentStart = zeroTime, currentStop = zeroTime, lastEntry = zeroTime\<rparr>"
  let ?d1 = "\<lparr>res = 30, entries = [f32 5, f32 0], head = 0, tail = 0,
       currentStart = 0, currentStop = 30000000000, lastEntry = 1000000000\<rparr>"
  let ?d2 = "\<lparr>res = 30, entries = [f32 5, f32 5], head = 0, tail = 1,
       currentStart = 30000000000, currentStop = 60000000000, lastEntry = 31000000000\<rparr>"
  have n: "New 30 2 = Inr ?d0" by code_simp
  have a1: "AddAt (f32 5) 1000000000 ?d0 = Some (Inr (?d1, []))" by code_simp
  have a2: "AddAt (f32 5) 31000000000 ?d1 = Some (Inr (?d2, []))" by code_simp
  have r0: "reachable 30 2 ?d0" by (rule reachable.init [OF _ _ _ n]) simp_all
  have r2: "reachable 30 2 ?d2" by (rule reachable.step [OF reachable.step [OF r0 a1] a2])
  have l: "Len ?d2 = 2" "Capacity ?d2 = 2" "tail ?d2 \<noteq> - 1" by code_simp+
  from ring_eviction [OF r2] l obtain db1 where
    "moveForward ?d2 = Inr db1" "Len db1 = Capacity db1" "Capacity db1 = Capacity ?d2"
    "head db1 = (head ?d2 + 1) mod Capacity ?d2" "Get 0 db1 = Get 1 ?d2"
    by auto
  with r2 l show ?thesis by auto
qed

text \<open>
  C2. Every non-empty store reachable from \<^verbatim>\<open>New\<close> should have its last entry before
  the stop of the current bucket. After \<^verbatim>\<open>New(30, 5)\<close>, a sample at second 1 and a
  sample at second 60, the loop of C1 leaves the last entry at second 60, which is the
  stop of the current bucket and not before it.
\<close>

theorem invariant_broken_on_boundary:
  "reachable 30 5 \<lparr>res = 30, entries = [f32 1, f32 2, f32 0, f32 0, f32 0], head = 0, tail = 1,
         currentStart = Unix0 30, currentStop = Unix0 60, lastEntry = Unix0 60\<rparr> \<and>
   tail \<lparr>res = 30, entries = [f32 1, f32 2, f32 0, f32 0, f32 0], head = 0, tail = 1,
         currentStart = Unix0 30, currentStop = Unix0 60, lastEntry = Unix0 60\<rparr> \<noteq> - 1 \<and>
   \<not> Before (lastEntry \<lparr>res = 30, entries = [f32 1, f32 2, f32 0, f32 0, f32 0], head = 0, tail = 1,
         currentStart = Unix0 30, currentStop = Unix0 60, lastEntry = Unix0 60\<rparr>)
       (currentStop \<lparr>res = 30, entries = [f32 1, f32 2, f32 0, f32 0, f32 0], head = 0, tail = 1,
         currentStart = Unix0 30, currentStop = Unix0 60, lastEntry = Unix0 60\<rparr>)"
proof -
  let ?d0 = "\<lparr>res = 30, entries = [f32 0, f32 0, f32 0, f32 0, f32 0], head = - 1, tail = - 1,
       currentStart = zeroTime, currentStop = zeroTime, lastEntry = zeroTime\<rparr>"
  let ?d1 = "\<lparr>res = 30, entries = [f32 1, f32 0, f32 0, f32 0, f32 0], head = 0, tail = 0,
         currentStart = Unix0 0, currentStop = Unix0 30, lastEntry = Unix0 1\<rparr>"
  let ?d2 = "\<lparr>res = 30, entries = [f32 1, f32 2, f32 0, f32 0, f32 0], head = 0, tail = 1,
         currentStart = Unix0 30, currentStop = Unix0 60, lastEntry = Unix0 60\<rparr>"
  have n: "New 30 5 = Inr ?d0" by code_simp
  have a1: "AddAt (f32 1) (Unix0 1) ?d0 = Some (Inr (?d1, []))" by code_simp
  have a2: "AddAt (f32 2) (Unix0 60) ?d1 = Some (Inr (?d2, []))" by code_simp
  have r0: "reachable 30 5 ?d0" by (rule reachable.init [OF _ _ _ n]) simp_all
  have r2: "reachable 30 5 ?d2" by (rule reachable.step [OF reachable.step [OF r0 a1] a2])
  have "\<not> Before (lastEntry ?d2) (currentStop ?d2)" by (simp add: Before_def)
  with r2 show ?thesis by simp
qed

section \<open>Persistence\<close>

text \<open>
  C8. For every store, if the encoder writes the version byte as \<open>b1\<close> and the mirror
  struct of the store as \<open>b2\<close>, and the decoder reads both back from these bytes, then
  \<^verbatim>\<open>GobEncode\<close> returns \<open>b1 @ b2\<close> and \<^verbatim>\<open>GobDecode\<close> of these bytes into any
  receiver returns no error and leaves the receiver equal to the store in every field:
  resolution, entries, head, tail, and the three times.
\<close>

theorem GobDecode_GobEncode:
  assumes "Encode_byte g gobDbGobVersion = Inr b1"
    and "Encode_gobDb g \<lparr>Res = res db, Entries = entries db, Head = head db, Tail = tail db,
               CurrentStart = currentStart db, CurrentStop = currentStop db,
               LastEntry = lastEntry db\<rparr> = Inr b2"
    and "b1 @ b2 \<noteq> []"
    and "Decode_byte g (b1 @ b2) = Inr (gobDbGobVersion, b2)"
    and "Decode_gobDb g b2 = Inr (\<lparr>Res = res db, Entries = entries db, Head = head db, Tail = tail db,
               CurrentStart = currentStart db, CurrentStop = currentStop db,
               LastEntry = lastEntry db\<rparr>, rest)"
  shows "GobEncode g db = Inr (b1 @ b2) \<and> GobDecode g (b1 @ b2) target = (None, db)"
  using assms by (simp add: GobEncode_def GobDecode_def)

theorem GobDecode_GobEncode_witness:
  "GobEncode \<lparr>Encode_byte = \<lambda>v. Inr [v], Encode_gobDb = \<lambda>d. Inr [of_int (Res d)],
          Decode_byte = \<lambda>b. (case b of [] \<Rightarrow> Inl (GobError ''EOF'') | x # xs \<Rightarrow> Inr (x, xs)),
          Decode_gobDb = \<lambda>b. (if b = [30] then Inr (\<lparr>Res = 30,
              Entries = [f32 0, f32 7, f32 14, f32 21, f32 28], Head = 3, Tail = 1,
              CurrentStart = 60000000000, CurrentStop = 90000000000, LastEntry = 75000000000\<rparr>, [])
            else Inl (GobError ''EOF''))\<rparr>
       \<lparr>res = 30, entries = [f32 0, f32 7, f32 14, f32 21, f32 28], head = 3, tail = 1,
         currentStart = 60000000000, currentStop = 90000000000, lastEntry = 75000000000\<rparr>
     = Inr [1, 30] \<and>
   GobDecode \<lparr>Encode_byte = \<lambda>v. Inr [v], Encode_gobDb = \<lambda>d. Inr [of_int (Res d)],
          Decode_byte = \<lambda>b. (case b of [] \<Rightarrow> Inl (GobError ''EOF'') | x # xs \<Rightarrow> Inr (x, xs)),
          Decode_gobDb = \<lambda>b. (if b = [30] then Inr (\<lparr>Res = 30,
              Entries = [f32 0, f32 7, f32 14, f32 21, f32 28], Head = 3, Tail = 1,
              CurrentStart = 60000000000, CurrentStop = 90000000000, LastEntry = 75000000000\<rparr>, [])
            else Inl (GobError ''EOF''))\<rparr>
       [1, 30]
       \<lparr>res = 8, entries = [], head = - 1, tail = - 1,
         currentStart = zeroTime, currentStop = zeroTime, lastEntry = zeroTime\<rparr>
     = (None, \<lparr>res = 30, entries = [f32 0, f32 7, f32 14, f32 21, f32 28], head = 3, tail = 1,
         currentStart = 60000000000, currentStop = 90000000000, lastEntry = 75000000000\<rparr>)"
proof -
  let ?g = "\<lparr>Encode_byte = \<lambda>v. Inr [v], Encode_gobDb = \<lambda>d. Inr [of_int (Res d)],
          Decode_byte = \<lambda>b. (case b of [] \<Rightarrow> Inl (GobError ''EOF'') | x # xs \<Rightarrow> Inr (x, xs)),
          Decode_gobDb = \<lambda>b. (if b = [30] then Inr (\<lparr>Res = 30,
              Entries = [f32 0, f32 7, f32 14, f32 21, f32 28], Head = 3, Tail = 1,
              CurrentStart = 60000000000, CurrentStop = 90000000000, LastEntry = 75000000000\<rparr>, [])
            else Inl (GobError ''EOF''))\<rparr>"
  let ?db = "\<lparr>res = 30, entries = [f32 0, f32 7, f32 14, f32 21, f32 28], head = 3, tail = 1,
         currentStart = 60000000000, currentStop = 90000000000, lastEntry = 75000000000\<rparr>"
  have h1: "Encode_byte ?g gobDbGobVersion = Inr [1]" by (simp add: gobDbGobVersion_def)
  have h2: "Encode_gobDb ?g \<lparr>Res = res ?db, Entries = entries ?db, Head = head ?db, Tail = tail ?db,
               CurrentStart = currentStart ?db, CurrentStop = currentStop ?db,
               LastEntry = lastEntry ?db\<rparr> = Inr [30]" by simp
  have h3: "[1] @ [30] \<noteq> ([] :: 8 word list)" by simp
  have h4: "Decode_byte ?g ([1] @ [30]) = Inr (gobDbGobVersion, [30])"
    by (simp add: gobDbGobVersion_def)
  have h5: "Decode_gobDb ?g [30] = Inr (\<lparr>Res = res ?db, Entries = entries ?db, Head = head ?db,
               Tail = tail ?db, CurrentStart = currentStart ?db, CurrentStop = currentStop ?db,
               LastEntry = lastEntry ?db\<rparr>, [])" by simp
  from GobDecode_GobEncode [OF h1 h2 h3 h4 h5] show ?thesis by simp
qed

text \<open>
  C9. \<^verbatim>\<open>GobDecode\<close> of no bytes, or of bytes from which the decoder reads a version
  other than \<^verbatim>\<open>gobDbGobVersion\<close>, returns an error and leaves the receiver as it was,
  whatever the decoder does otherwise.
\<close>

theorem GobDecode_rejects:
  assumes "b = [] \<or> (\<exists>version buf. Decode_byte g b = Inr (version, buf) \<and> version \<noteq> gobDbGobVersion)"
  shows "\<exists>err. GobDecode g b db = (Some err, db)"
  using assms by (auto simp add: GobDecode_def)

theorem GobDecode_rejects_witness:
  "(\<exists>version buf.
      Decode_byte \<lparr>Encode_byte = \<lambda>v. Inr [v], Encode_gobDb = \<lambda>d. Inr [0],
          Decode_byte = \<lambda>b. (case b of [] \<Rightarrow> Inl (GobError ''EOF'') | x # xs \<Rightarrow> Inr (x, xs)),
          Decode_gobDb = \<lambda>b. Inl (GobError ''EOF'')\<rparr> [2, 0] = Inr (version, buf) \<and>
      version \<noteq> gobDbGobVersion) \<and>
   (\<exists>err. GobDecode \<lparr>Encode_byte = \<lambda>v. Inr [v], Encode_gobDb = \<lambda>d. Inr [0],
          Decode_byte = \<lambda>b. (case b of [] \<Rightarrow> Inl (GobError ''EOF'') | x # xs \<Rightarrow> Inr (x, xs)),
          Decode_gobDb = \<lambda>b. Inl (GobError ''EOF'')\<rparr> [2, 0]
        \<lparr>res = 30, entries = [f32 5, f32 0], head = 0, tail = 0, currentStart = 0,
          currentStop = 30000000000, lastEntry = 20000000000\<rparr>
      = (Some err, \<lparr>res = 30, entries = [f32 5, f32 0], head = 0, tail = 0, currentStart = 0,
          currentStop = 30000000000, lastEntry = 20000000000\<rparr>))"
proof -
  let ?g = "\<lparr>Encode_byte = \<lambda>v. Inr [v], Encode_gobDb = \<lambda>d. Inr [0],
          Decode_byte = \<lambda>b. (case b of [] \<Rightarrow> Inl (GobError ''EOF'') | x # xs \<Rightarrow> Inr (x, xs)),
          Decode_gobDb = \<lambda>b. Inl (GobError ''EOF'')\<rparr>"
  have h: "\<exists>version buf. Decode_byte ?g [2, 0] = Inr (version, buf) \<and> version \<noteq> gobDbGobVersion"
    by (simp add: gobDbGobVersion_def)
  then have "[2, 0] = [] \<or> (\<exists>version buf. Decode_byte ?g [2, 0] = Inr (version, buf) \<and>
      version \<noteq> gobDbGobVersion)" by blast
  from GobDecode_rejects [OF this] h show ?thesis by blast
qed

end
